theory Spec2Isabelle
  imports Main "HOL-Library.Sublist"
begin

section \<open>Registered-domain lookup (regdom.c)\<close>

subsection \<open>Data model\<close>

text \<open>
  \<^verbatim>\<open>struct tldnode { char *dom; const char *attr; unsigned int num_children;
  struct tldnode **subnodes; }\<close>.

  \<^item> \<open>dom\<close> is \<open>None\<close> while the pointer is still NULL (the decoder zeroes the node
    and sets \<open>dom\<close> only when it meets a delimiter), otherwise the bytes of the C string.
  \<^item> \<open>attr\<close> is either NULL or the address of the static \<open>THIS\<close>; the code only ever
    tests \<open>attr == THIS\<close>, so it is a flag.
  \<^item> \<open>num_children\<close> is the length of \<open>subnodes\<close>: the decoder allocates exactly
    \<open>num_children\<close> slots and fills every one.
\<close>

datatype tldnode = Node (dom: "string option") (attr: bool) (subnodes: "tldnode list")

abbreviation num_children :: "tldnode \<Rightarrow> nat" where
  "num_children n \<equiv> length (subnodes n)"

text \<open>
  What the C code can do besides returning: call \<open>abort()\<close> (line 234), hand a NULL
  \<open>dom\<close> to \<open>strcmp\<close>/\<open>strlen\<close>, move a pointer in front of the host name, read
  behind the terminating NUL of the encoded text, or ask \<open>atoi\<close> for a number that
  does not fit an \<open>int\<close>.
\<close>

datatype error = Abort | NullDom | PtrUnderflow | OutOfBounds | IntOverflow

abbreviation NUL :: char where
  "NUL \<equiv> CHR 0x00"

abbreviation ALL_str :: string where
  "ALL_str \<equiv> ''*''"

text \<open>
  A \<open>const char *\<close> argument is the sequence of bytes in front of the first NUL.
\<close>

definition cstr :: "string \<Rightarrow> string" where
  "cstr bs = takeWhile (\<lambda>c. c \<noteq> NUL) bs"

text \<open>
  \<open>h[i]\<close> for a C string with contents \<open>h\<close>: position \<open>length h\<close> holds the terminator.
  The resolver never reads behind it.
\<close>

definition peek :: "string \<Rightarrow> nat \<Rightarrow> char" where
  "peek h i = (if i < length h then h ! i else NUL)"

subsection \<open>readTldString and loadTldTree\<close>

text \<open>
  \<open>s[i]\<close> for the encoded text: the array holds the bytes of \<open>s\<close> and the
  terminating NUL of the string literal; any position behind that is outside the array.
\<close>

definition byte_at :: "string \<Rightarrow> nat \<Rightarrow> char option" where
  "byte_at s i = (if i < length s then Some (s ! i) else if i = length s then Some NUL else None)"

text \<open>
  \<open>atoi\<close> of the C library: white space, an optional sign, then decimal digits up to
  the first other byte.
\<close>

definition isdigit :: "char \<Rightarrow> bool" where
  "isdigit c = (48 \<le> (of_char c :: nat) \<and> (of_char c :: nat) \<le> 57)"

definition isspace :: "char \<Rightarrow> bool" where
  "isspace c = (c \<in> set [CHR 0x09, CHR 0x0A, CHR 0x0B, CHR 0x0C, CHR 0x0D, CHR 0x20])"

fun atoi_digits :: "int \<Rightarrow> string \<Rightarrow> int" where
  "atoi_digits acc [] = acc"
| "atoi_digits acc (c # cs) =
     (if isdigit c then atoi_digits (10 * acc + (of_char c - 48)) cs else acc)"

definition atoi :: "string \<Rightarrow> int" where
  "atoi buf =
     (case dropWhile isspace buf of
        [] \<Rightarrow> 0
      | c # cs \<Rightarrow>
          if c = CHR ''-'' then - atoi_digits 0 cs
          else if c = CHR ''+'' then atoi_digits 0 cs
          else atoi_digits 0 (c # cs))"

text \<open>
  \<open>readTldString\<close> is one \<^verbatim>\<open>do ... while (pos < len)\<close> loop over a state machine and
  calls itself for every child. The model has one function for each state of the loop
  and one for the \<^verbatim>\<open>for\<close> loop over the children:

  \<^item> \<open>general_read\<close> is an iteration in state 0. In this state \<open>node->dom\<close> is still
    NULL; \<open>marked\<close> is \<open>node->attr == THIS\<close>. At a delimiter \<open>dom\<close> becomes the
    \<open>lenc\<close> bytes from \<open>s + start\<close> on, as a C string. When \<open>marked\<close> holds, a \<open>!\<close>
    was read at some position from \<open>start\<close> on, so \<open>pos - start - 1\<close> is not negative.
  \<^item> \<open>count_read\<close> is an iteration in state 1, with \<open>dom\<close> set to \<open>d\<close> and \<open>start\<close>
    at the opening parenthesis. \<open>atoi\<close> is undefined for a value outside \<open>int\<close>
    (\<open>IntOverflow\<close>); its result is converted to \<open>unsigned int\<close>.
  \<^item> \<open>read_children n pos\<close> runs the remaining \<open>n\<close> iterations of the \<^verbatim>\<open>for\<close> loop,
    returning the children and the last \<open>pos\<close>.

  The loop body runs before \<open>pos < len\<close> is tested, so a call may read \<open>s[pos]\<close> at
  or behind \<open>len\<close>. Every iteration and every call uses one unit of \<open>fuel\<close>; \<open>None\<close>
  means that the fuel did not suffice. Allocation is assumed to succeed.
\<close>

function general_read ::
    "nat \<Rightarrow> string \<Rightarrow> nat \<Rightarrow> nat \<Rightarrow> bool \<Rightarrow> nat \<Rightarrow> (error + tldnode \<times> nat) option"
  and count_read ::
    "nat \<Rightarrow> string \<Rightarrow> nat \<Rightarrow> string \<Rightarrow> bool \<Rightarrow> nat \<Rightarrow> nat \<Rightarrow> (error + tldnode \<times> nat) option"
  and read_children ::
    "nat \<Rightarrow> string \<Rightarrow> nat \<Rightarrow> nat \<Rightarrow> nat \<Rightarrow> (error + tldnode list \<times> nat) option"
where
  "general_read 0 s len start marked pos = None"
| "general_read (Suc fuel) s len start marked pos =
     (case byte_at s pos of
        None \<Rightarrow> Some (Inl OutOfBounds)
      | Some c \<Rightarrow>
          if c = CHR '','' \<or> c = CHR '')'' \<or> c = CHR ''(''
          then
            (let lenc = (if marked then pos - start - 1 else pos - start);
                 d = cstr (take lenc (drop start s))
             in if c = CHR ''(''
                then (if Suc pos < len
                      then count_read fuel s len d marked pos (Suc pos)
                      else Some (Inr (Node (Some d) marked [], Suc pos)))
                else Some (Inr (Node (Some d) marked [], pos)))
          else
            (let marked' = (marked \<or> c = CHR ''!'')
             in if Suc pos < len
                then general_read fuel s len start marked' (Suc pos)
                else Some (Inr (Node None marked' [], Suc pos))))"
| "count_read 0 s len d marked start pos = None"
| "count_read (Suc fuel) s len d marked start pos =
     (case byte_at s pos of
        None \<Rightarrow> Some (Inl OutOfBounds)
      | Some c \<Rightarrow>
          if c = CHR '':''
          then
            (let v = atoi (cstr (take (pos - start - 1) (drop (Suc start) s)))
             in if v < - (2 ^ 31) \<or> 2 ^ 31 \<le> v then Some (Inl IntOverflow)
                else
                  (case read_children fuel s len (nat (v mod 2 ^ 32)) pos of
                     None \<Rightarrow> None
                   | Some (Inl e) \<Rightarrow> Some (Inl e)
                   | Some (Inr (cs, pos')) \<Rightarrow> Some (Inr (Node (Some d) marked cs, Suc pos'))))
          else if Suc pos < len
          then count_read fuel s len d marked start (Suc pos)
          else Some (Inr (Node (Some d) marked [], Suc pos)))"
| "read_children 0 s len n pos = None"
| "read_children (Suc fuel) s len n pos =
     (if n = 0 then Some (Inr ([], pos))
      else
        (case general_read fuel s len (Suc pos) False (Suc pos) of
           None \<Rightarrow> None
         | Some (Inl e) \<Rightarrow> Some (Inl e)
         | Some (Inr (c, pos')) \<Rightarrow>
             (case read_children fuel s len (n - 1) pos' of
                None \<Rightarrow> None
              | Some (Inl e) \<Rightarrow> Some (Inl e)
              | Some (Inr (cs, pos'')) \<Rightarrow> Some (Inr (c # cs, pos'')))))"

  by pat_completeness auto
termination
  by (relation "measure (\<lambda>x. case x of Inl (f, _) \<Rightarrow> f | Inr (Inl (f, _)) \<Rightarrow> f | Inr (Inr (f, _)) \<Rightarrow> f)") auto

text \<open>The entry: \<open>start = pos\<close>, \<open>state = 0\<close>, and the node zeroed.\<close>

definition readTldString :: "nat \<Rightarrow> string \<Rightarrow> nat \<Rightarrow> nat \<Rightarrow> (error + tldnode \<times> nat) option" where
  "readTldString fuel s len pos = general_read fuel s len pos False pos"

text \<open>
  \<open>loadTldTree\<close> decodes the static \<open>tldString\<close> of \<^verbatim>\<open>tld-canon.h\<close>, which is not
  among the sources and is a parameter here, with \<open>len = sizeof tldString - 1\<close>.
\<close>

definition loadTldTree :: "nat \<Rightarrow> string \<Rightarrow> (error + tldnode) option" where
  "loadTldTree fuel tldString =
     map_option (map_sum id fst) (readTldString fuel tldString (length tldString) 0)"

subsection \<open>findTldNode\<close>

text \<open>
  The loop over \<open>parent->subnodes\<close>, with \<open>allNode\<close> as accumulator. The label is the
  byte range \<open>[seg_start, seg_end)\<close> of the host name \<open>h\<close>. \<open>m = seg_end - seg_start\<close>
  is a pointer difference stored in a \<open>size_t\<close>: when it is negative it wraps to a
  value no \<open>strlen\<close> can reach, so \<open>m == n\<close> is false, as it is for the integers here.
\<close>

fun findTldNode_loop ::
  "tldnode list \<Rightarrow> string \<Rightarrow> nat \<Rightarrow> nat \<Rightarrow> tldnode option \<Rightarrow> error + tldnode option" where
  "findTldNode_loop [] h seg_start seg_end allNode = Inr allNode"
| "findTldNode_loop (c # cs) h seg_start seg_end allNode =
     (case dom c of
        None \<Rightarrow> Inl NullDom
      | Some d \<Rightarrow>
          if allNode = None \<and> d = ALL_str
          then findTldNode_loop cs h seg_start seg_end (Some c)
          else if int seg_end - int seg_start = int (length d)
                  \<and> take (length d) (drop seg_start h) = d
          then Inr (Some c)
          else findTldNode_loop cs h seg_start seg_end allNode)"

definition findTldNode :: "tldnode \<Rightarrow> string \<Rightarrow> nat \<Rightarrow> nat \<Rightarrow> error + tldnode option" where
  "findTldNode parent h seg_start seg_end =
     findTldNode_loop (subnodes parent) h seg_start seg_end None"

subsection \<open>getRegisteredDomainDropI\<close>

text \<open>\<^verbatim>\<open>while (seg_start > head && *seg_start != '.') seg_start--;\<close>\<close>

fun scan_back :: "string \<Rightarrow> nat \<Rightarrow> nat" where
  "scan_back h 0 = 0"
| "scan_back h (Suc p) = (if peek h (Suc p) \<noteq> CHR ''.'' then scan_back h p else Suc p)"

text \<open>The scan followed by \<^verbatim>\<open>if (*seg_start == '.') seg_start++;\<close>\<close>

definition label_start :: "string \<Rightarrow> nat \<Rightarrow> nat" where
  "label_start h p = (let q = scan_back h p in if peek h q = CHR ''.'' then Suc q else q)"

lemma scan_back_le: "scan_back h p \<le> p"
  by (induction p) auto

lemma label_start_le: "label_start h p \<le> Suc p"
  using scan_back_le [of h p] by (simp add: label_start_def Let_def)

text \<open>
  The \<^verbatim>\<open>for (;;)\<close> loop (lines 211-237), entered with the current \<open>tree\<close>,
  \<open>seg_start\<close> and \<open>seg_end\<close>. \<open>Inr (Some s)\<close> is \<^verbatim>\<open>break\<close> with \<open>seg_start = s\<close>,
  \<open>Inr None\<close> is \<^verbatim>\<open>return 0\<close>. Advancing sets \<open>seg_end = seg_start - 1\<close> and
  \<open>seg_start = seg_end - 1\<close>; with \<open>seg_start < 2\<close> the latter would leave the buffer.
\<close>

function descend :: "string \<Rightarrow> tldnode \<Rightarrow> nat \<Rightarrow> nat \<Rightarrow> error + nat option" where
  "descend h tree seg_start seg_end =
     (let s = label_start h seg_start in
      case findTldNode tree h s seg_end of
        Inl e \<Rightarrow> Inl e
      | Inr None \<Rightarrow> Inr (Some s)
      | Inr (Some subtree) \<Rightarrow>
          if num_children subtree = 1 \<and> attr (subnodes subtree ! 0) then Inr (Some s)
          else if s = 0 then Inr None
          else if peek h (s - 1) \<noteq> CHR ''.'' then Inl Abort
          else if s < 2 then Inl PtrUnderflow
          else descend h subtree (s - 2) (s - 1))"
  by pat_completeness auto
termination
proof (relation "measure (\<lambda>(h, tree, seg_start, seg_end). seg_start)", goal_cases)
  case 1
  show ?case by simp
next
  case (2 h tree seg_start seg_end s)
  have "s \<le> Suc seg_start"
    using 2(1) label_start_le [of h seg_start] by simp
  with 2 show ?case by simp
qed

declare descend.simps [simp del]

text \<open>
  Lines 239-255, after the loop has left with \<^verbatim>\<open>break\<close>: \<open>strchr(seg_start, '.')\<close>
  searches from \<open>seg_start\<close> up to the terminating NUL of the host name. \<open>Inr (Some s)\<close>
  is the returned pointer \<open>hostname + s\<close>.
\<close>

definition finish :: "string \<Rightarrow> nat \<Rightarrow> bool \<Rightarrow> error + nat option" where
  "finish h seg_start drop_unknown =
     (if CHR ''.'' \<in> set (drop seg_start h) then Inr (Some seg_start)
      else if seg_start = 0 \<or> drop_unknown then Inr None
      else if seg_start < 2 then Inl PtrUnderflow
      else Inr (Some (label_start h (seg_start - 2))))"

text \<open>
  The whole function. \<open>seg_end[-1]\<close> is read only for a non-empty host name.
  The result is the offset of the returned pointer from \<open>hostname\<close>.
\<close>

definition getRegisteredDomainDropI :: "string \<Rightarrow> tldnode \<Rightarrow> bool \<Rightarrow> error + nat option" where
  "getRegisteredDomainDropI hostname tree drop_unknown =
     (let h = cstr hostname in
      if peek h 0 = CHR ''.'' \<or> peek h 0 = NUL then Inr None
      else
        let seg_end = (if peek h (length h - 1) = CHR ''.'' then length h - 1 else length h)
        in case descend h tree seg_end seg_end of
             Inl e \<Rightarrow> Inl e
           | Inr None \<Rightarrow> Inr None
           | Inr (Some seg_start) \<Rightarrow> finish h seg_start drop_unknown)"

text \<open>
  The two public entry points return the same pointer; here it is shown as the C string
  it points to, the bytes of the host name from that offset on.
\<close>

definition getRegisteredDomainDrop :: "string \<Rightarrow> tldnode \<Rightarrow> bool \<Rightarrow> error + string option" where
  "getRegisteredDomainDrop hostname tree drop_unknown =
     map_sum id (map_option (\<lambda>off. drop off (cstr hostname)))
       (getRegisteredDomainDropI hostname tree drop_unknown)"

definition getRegisteredDomain :: "string \<Rightarrow> tldnode \<Rightarrow> error + string option" where
  "getRegisteredDomain hostname tree = getRegisteredDomainDrop hostname tree False"

subsection \<open>The rule set of the concrete scenarios\<close>

text \<open>
  \<open>com\<close> is a plain leaf, \<open>uk\<close> has a wildcard child and the exception
  \<open>!parliament.uk\<close>, and the top level has a wildcard. An exception is stored the way
  the resolver tests it (\<open>subtree->num_children == 1 && subtree->subnodes[0]->attr == THIS\<close>):
  the node of the excepted label has a single child whose encoded label is the bare
  marker \<open>!\<close>. The encoded text is \<open>root(3:com,uk(2:*,parliament(1:!)),*)\<close>; the
  second tree is the same rule set without the top-level wildcard.
\<close>

definition scenario_tree :: tldnode where
  "scenario_tree =
     Node (Some ''root'') False
       [Node (Some ''com'') False [],
        Node (Some ''uk'') False
          [Node (Some ''*'') False [],
           Node (Some ''parliament'') False [Node (Some '''') True []]],
        Node (Some ''*'') False []]"

definition scenario_tree_no_star :: tldnode where
  "scenario_tree_no_star =
     Node (Some ''root'') False
       [Node (Some ''com'') False [],
        Node (Some ''uk'') False
          [Node (Some ''*'') False [],
           Node (Some ''parliament'') False [Node (Some '''') True []]]]"

text \<open>The bytes of the label \<open>[seg_start, seg_end)\<close> of a host name.\<close>

definition label_of :: "string \<Rightarrow> nat \<Rightarrow> nat \<Rightarrow> string" where
  "label_of h seg_start seg_end = take (seg_end - seg_start) (drop seg_start h)"

subsection \<open>Well-formed encodings\<close>

text \<open>
  The encoded text is generated from the grammar
  \<^verbatim>\<open>Node := ExceptionMark? LabelChars ChildBlock?\<close>,
  \<^verbatim>\<open>ChildBlock := '(' Count ':' Node (',' Node){Count-1} ')'\<close>,
  where the label characters are any characters but the delimiters \<open>,\<close> \<open>(\<close> \<open>)\<close>.
  This is the grammar of the specification, not code of \<^verbatim>\<open>regdom.c\<close>: an encoded node
  \<open>Enc l cs\<close> has the run \<open>l\<close> of characters in front of its first delimiter (an
  exception mark is part of the run) and the encoded children \<open>cs\<close>; \<open>render\<close> prints it,
  with the number of children in decimal and no child block for a node without children.
\<close>

datatype enc = Enc (run: string) (kids: "enc list")

definition is_delim :: "char \<Rightarrow> bool" where
  "is_delim c = (c = CHR '','' \<or> c = CHR ''('' \<or> c = CHR '')'')"

definition digit :: "nat \<Rightarrow> char" where
  "digit d = char_of (48 + d)"

fun decimal :: "nat \<Rightarrow> string" where
  "decimal n = (if n < 10 then [digit n] else decimal (n div 10) @ [digit (n mod 10)])"

declare decimal.simps [simp del]

fun join :: "string list \<Rightarrow> string" where
  "join [] = []"
| "join [x] = x"
| "join (x # y # ys) = x @ CHR '','' # join (y # ys)"

fun render :: "enc \<Rightarrow> string" where
  "render (Enc l cs) =
     l @ (if cs = [] then []
          else ''('' @ decimal (length cs) @ '':'' @ join (map render cs) @ '')'')"

text \<open>
  Well-formed: no delimiter inside a run, and a number of children that \<open>atoi\<close> can
  return.
\<close>

fun wf_enc :: "enc \<Rightarrow> bool" where
  "wf_enc (Enc l cs) \<longleftrightarrow>
     (\<forall>c\<in>set l. \<not> is_delim c) \<and> length cs < 2 ^ 31 \<and> (\<forall>c\<in>set cs. wf_enc c)"

text \<open>
  A node without a child block ends at the \<open>,\<close> or \<open>)\<close> that follows it: \<open>delimited\<close>
  says that the rest of the text starts with one.
\<close>

definition delimited :: "string \<Rightarrow> bool" where
  "delimited rest = (case rest of [] \<Rightarrow> False | d # _ \<Rightarrow> d = CHR '','' \<or> d = CHR '')'')"

text \<open>
  The positions at which the texts \<open>xs\<close> of the children start when the first one starts
  at \<open>p\<close>, each followed by one separating character; and these positions for the
  children of a node whose text starts at \<open>start\<close>: behind the run, the opening
  parenthesis, the count and the colon.
\<close>

fun child_starts :: "nat \<Rightarrow> string list \<Rightarrow> nat list" where
  "child_starts p [] = []"
| "child_starts p (x # xs) = p # child_starts (Suc (p + length x)) xs"

definition child_positions :: "nat \<Rightarrow> enc \<Rightarrow> nat list" where
  "child_positions start e =
     child_starts (start + length (run e) + length (decimal (length (kids e))) + 2)
       (map render (kids e))"

subsection \<open>The tree that the decoder builds from an encoding\<close>

text \<open>
  \<open>stored l\<close> is what state 0 of \<open>readTldString\<close> copies into \<open>dom\<close> for the run \<open>l\<close>:
  with a \<open>!\<close> anywhere in the run the length is one less, and the copy still starts at
  the first character of the run. \<open>decoded\<close> is the tree of an encoded node, and
  \<open>reads_back\<close> says that the decoder returns it, with the position just behind the
  node's text, wherever that text stands.
\<close>

definition stored :: "string \<Rightarrow> string" where
  "stored l = cstr (if CHR ''!'' \<in> set l then butlast l else l)"

fun decoded :: "enc \<Rightarrow> tldnode" where
  "decoded (Enc l cs) = Node (Some (stored l)) (CHR ''!'' \<in> set l) (map decoded cs)"

definition reads_back :: "enc \<Rightarrow> bool" where
  "reads_back c \<longleftrightarrow>
     (\<forall>pre rest.
        (kids c = [] \<longrightarrow> delimited rest) \<longrightarrow>
        (\<exists>n. general_read n (pre @ render c @ rest) (length (pre @ render c @ rest))
                (length pre) False (length pre)
              = Some (Inr (decoded c, length pre + length (render c)))))"

section \<open>Properties of the resolver\<close>

subsection \<open>Auxiliary facts\<close>

lemma cstr_no_NUL: "NUL \<notin> set (cstr bs)"
  unfolding cstr_def by (induction bs) auto

lemma scan_back_stop: "scan_back h p = 0 \<or> peek h (scan_back h p) = CHR ''.''"
  by (induction p) auto

lemma label_start_prev:
  "label_start h p = 0 \<or> peek h (label_start h p - 1) = CHR ''.''"
  using scan_back_stop [of h p] by (auto simp: label_start_def Let_def)

lemma label_start_ge2:
  assumes "peek h 0 \<noteq> CHR ''.''" and "label_start h p \<noteq> 0"
  shows "2 \<le> label_start h p"
proof (rule ccontr)
  assume "\<not> 2 \<le> label_start h p"
  with assms(2) have one: "label_start h p = 1" by simp
  from label_start_prev [of h p] one have "peek h 0 = CHR ''.''" by simp
  with assms(1) show False by simp
qed

lemma findTldNode_loop_error:
  "findTldNode_loop cs h s e a = Inl err \<Longrightarrow> err = NullDom"
  by (induction cs arbitrary: a) (auto split: option.splits if_splits)

lemma findTldNode_error: "findTldNode t h s e = Inl err \<Longrightarrow> err = NullDom"
  unfolding findTldNode_def by (rule findTldNode_loop_error)

lemma descend_no_abort: "descend h tree p e \<noteq> Inl Abort"
proof (induction h tree p e rule: descend.induct)
  case (1 h tree seg_start seg_end)
  show ?case
    using 1 label_start_prev [of h seg_start]
    by (subst descend.simps)
      (auto simp: Let_def split: sum.splits option.splits dest: findTldNode_error)
qed

lemma descend_no_underflow:
  "peek h 0 \<noteq> CHR ''.'' \<Longrightarrow> descend h tree p e \<noteq> Inl PtrUnderflow"
proof (induction h tree p e rule: descend.induct)
  case (1 h tree seg_start seg_end)
  show ?case
    using 1 label_start_ge2 [of h seg_start]
    by (subst descend.simps)
      (auto simp: Let_def split: sum.splits option.splits dest: findTldNode_error)
qed

lemma descend_le: "descend h tree p e = Inr (Some s) \<Longrightarrow> s \<le> Suc p"
proof (induction h tree p e arbitrary: s rule: descend.induct)
  case (1 h tree seg_start seg_end)
  define s0 where "s0 = label_start h seg_start"
  have s0: "s0 \<le> Suc seg_start"
    unfolding s0_def by (rule label_start_le)
  show ?case
  proof (cases "findTldNode tree h s0 seg_end")
    case (Inl err)
    with "1.prems" show ?thesis
      by (subst (asm) descend.simps) (simp add: Let_def s0_def)
  next
    case (Inr r)
    show ?thesis
    proof (cases r)
      case None
      with Inr "1.prems" s0 show ?thesis
        by (subst (asm) descend.simps) (simp add: Let_def s0_def)
    next
      case (Some sub)
      show ?thesis
      proof (cases "num_children sub = 1 \<and> attr (subnodes sub ! 0)")
        case True
        with Some Inr "1.prems" s0 show ?thesis
          by (subst (asm) descend.simps) (simp add: Let_def s0_def)
      next
        case False
        with Some Inr "1.prems" have
          adv: "s0 \<noteq> 0" "peek h (s0 - 1) = CHR ''.''" "\<not> s0 < 2"
            "descend h sub (s0 - 2) (s0 - 1) = Inr (Some s)"
          by (subst (asm) descend.simps; simp add: Let_def s0_def split: if_splits)+
        have "s \<le> Suc (s0 - 2)"
          using "1.IH" [OF s0_def [symmetric, THEN sym] Inr Some] False adv
          by (simp add: s0_def)
        with adv s0 show ?thesis by simp
      qed
    qed
  qed
qed


lemma peek_cstr_0: "peek (cstr bs) 0 = NUL \<longleftrightarrow> cstr bs = []"
  using cstr_no_NUL [of bs] by (cases "cstr bs") (auto simp: peek_def)

lemma descend_le_label: "descend h tree p e = Inr (Some s) \<Longrightarrow> s \<le> label_start h p"
proof -
  assume r: "descend h tree p e = Inr (Some s)"
  define s0 where "s0 = label_start h p"
  show ?thesis
  proof (cases "findTldNode tree h s0 e")
    case (Inl err)
    with r show ?thesis
      by (subst (asm) descend.simps) (simp add: Let_def s0_def)
  next
    case (Inr f)
    show ?thesis
    proof (cases f)
      case None
      with Inr r show ?thesis
        by (subst (asm) descend.simps) (simp add: Let_def s0_def)
    next
      case (Some sub)
      show ?thesis
      proof (cases "num_children sub = 1 \<and> attr (subnodes sub ! 0)")
        case True
        with Some Inr r show ?thesis
          by (subst (asm) descend.simps) (simp add: Let_def s0_def)
      next
        case False
        with Some Inr r have adv: "\<not> s0 < 2" "descend h sub (s0 - 2) (s0 - 1) = Inr (Some s)"
          by (subst (asm) descend.simps; simp add: Let_def s0_def split: if_splits)+
        from descend_le [OF adv(2)] adv(1) show ?thesis
          by (simp add: s0_def)
      qed
    qed
  qed
qed

lemma label_start_end: "h \<noteq> [] \<Longrightarrow> label_start h (length h) \<le> length h"
proof -
  assume "h \<noteq> []"
  then obtain n where n: "length h = Suc n"
    by (cases h) auto
  have "scan_back h (Suc n) = scan_back h n"
    using n by (simp add: peek_def)
  with scan_back_le [of h n] n show ?thesis
    by (simp add: label_start_def Let_def)
qed

lemma finish_bound:
  assumes "finish h s d = Inr (Some off)" and "s \<le> length h"
  shows "off < length h"
proof (cases "CHR ''.'' \<in> set (drop s h)")
  case True
  then have "drop s h \<noteq> []" by auto
  with True assms show ?thesis by (simp add: finish_def)
next
  case False
  with assms(1) have "\<not> s < 2" and off: "off = label_start h (s - 2)"
    by (auto simp: finish_def split: if_splits)
  with label_start_le [of h "s - 2"] assms(2) show ?thesis by simp
qed


lemma resolver_offset_bound:
  assumes "getRegisteredDomainDropI hostname tree d = Inr (Some off)"
  shows "off < length (cstr hostname)"
proof -
  define h where "h = cstr hostname"
  from assms have ne: "h \<noteq> []"
    using peek_cstr_0 [of hostname]
    by (auto simp: getRegisteredDomainDropI_def Let_def h_def split: if_splits)
  define e where "e = (if peek h (length h - 1) = CHR ''.'' then length h - 1 else length h)"
  from assms obtain s where
    s: "descend h tree e e = Inr (Some s)" and f: "finish h s d = Inr (Some off)"
    by (auto simp: getRegisteredDomainDropI_def Let_def h_def e_def
        split: if_splits sum.splits option.splits)
  have "s \<le> length h"
  proof (cases "peek h (length h - 1) = CHR ''.''")
    case True
    with descend_le [OF s] ne show ?thesis
      by (cases h) (auto simp: e_def)
  next
    case False
    with descend_le_label [OF s] label_start_end [OF ne] show ?thesis
      by (simp add: e_def)
  qed
  with f show ?thesis
    unfolding h_def by (rule finish_bound)
qed

lemma exact_match_iff:
  assumes "s \<le> e" and "e \<le> length h"
  shows "(int e - int s = int (length d) \<and> take (length d) (drop s h) = d)
    \<longleftrightarrow> d = label_of h s e"
proof
  assume "int e - int s = int (length d) \<and> take (length d) (drop s h) = d"
  then have "length d = e - s" and "take (length d) (drop s h) = d"
    using assms by auto
  then show "d = label_of h s e"
    by (simp add: label_of_def)
next
  assume d: "d = label_of h s e"
  have "length d = e - s"
    using assms by (simp add: d label_of_def)
  then show "int e - int s = int (length d) \<and> take (length d) (drop s h) = d"
    using assms by (simp add: d label_of_def)
qed

lemma findTldNode_loop_exact:
  assumes "s \<le> e" and "e \<le> length h"
    and "\<forall>c\<in>set cs. dom c \<noteq> None"
    and "(\<exists>a. allNode = Some a \<and> dom a = Some (label_of h s e))
       \<or> (\<exists>c\<in>set cs. dom c = Some (label_of h s e))"
  shows "\<exists>c. findTldNode_loop cs h s e allNode = Inr (Some c)
     \<and> dom c = Some (label_of h s e) \<and> (c \<in> set cs \<or> allNode = Some c)"
  using assms(3,4)
proof (induction cs arbitrary: allNode)
  case Nil
  then show ?case by auto
next
  case (Cons c cs)
  from Cons.prems(1) obtain d where d: "dom c = Some d"
    by auto
  have rest: "\<forall>c\<in>set cs. dom c \<noteq> None"
    using Cons.prems(1) by simp
  note m = exact_match_iff [OF assms(1,2), of d]
  show ?case
  proof (cases "allNode = None \<and> d = ALL_str")
    case True
    have "(\<exists>a. Some c = Some a \<and> dom a = Some (label_of h s e))
       \<or> (\<exists>c\<in>set cs. dom c = Some (label_of h s e))"
      using Cons.prems(2) True by auto
    from Cons.IH [OF rest this] show ?thesis
      using True d by auto
  next
    case False
    show ?thesis
    proof (cases "d = label_of h s e")
      case True
      with False d m show ?thesis by auto
    next
      case neq: False
      have "(\<exists>a. allNode = Some a \<and> dom a = Some (label_of h s e))
         \<or> (\<exists>c\<in>set cs. dom c = Some (label_of h s e))"
        using Cons.prems(2) neq d by auto
      from Cons.IH [OF rest this] show ?thesis
        using False neq d m by auto
    qed
  qed
qed

subsection \<open>Rejected host names\<close>

text \<open>
  Claim C8. For every tree and drop flag, a host name that is empty or whose first
  character is \<open>.\<close> makes the resolver return the null pointer: an ordinary return
  value (\<open>Inr None\<close>), not an error.
\<close>

theorem invalid_hostname_rejected:
  assumes "hostname = [] \<or> hd hostname = CHR ''.''"
  shows "getRegisteredDomainDropI hostname tree drop_unknown = Inr None
    \<and> getRegisteredDomainDrop hostname tree drop_unknown = Inr None
    \<and> getRegisteredDomain hostname tree = Inr None"
proof -
  have "peek (cstr hostname) 0 = CHR ''.'' \<or> peek (cstr hostname) 0 = NUL"
    using assms by (cases hostname) (auto simp: cstr_def peek_def)
  then have "getRegisteredDomainDropI hostname tree d = Inr None" for d
    by (auto simp: getRegisteredDomainDropI_def Let_def)
  then show ?thesis
    by (simp add: getRegisteredDomainDrop_def getRegisteredDomain_def)
qed

theorem invalid_hostname_rejected_witness:
  "getRegisteredDomainDrop '''' scenario_tree True = Inr None
   \<and> getRegisteredDomainDrop ''.com'' scenario_tree False = Inr None"
  using invalid_hostname_rejected [of "''''" scenario_tree True]
    invalid_hostname_rejected [of "''.com''" scenario_tree False]
  by simp

subsection \<open>The abort branch\<close>

text \<open>
  Claim C10. For every host name and every tree the resolver never reaches
  \<open>abort()\<close>: after the label scan \<open>seg_start\<close> is either the start of the host
  name, where the loop returns instead of advancing, or the position just behind a
  \<open>.\<close>, so the guard \<open>seg_start[-1] != '.'\<close> is false whenever the loop advances.
\<close>

theorem abort_unreachable:
  "getRegisteredDomainDropI hostname tree drop_unknown \<noteq> Inl Abort
   \<and> descend h tree seg_start seg_end \<noteq> Inl Abort
   \<and> (0 < label_start h seg_start \<longrightarrow> peek h (label_start h seg_start - 1) = CHR ''.'')"
proof -
  have "finish h' s d \<noteq> Inl Abort" for h' s d
    by (simp add: finish_def)
  then have "getRegisteredDomainDropI hostname tree drop_unknown \<noteq> Inl Abort"
    using descend_no_abort
    by (auto simp: getRegisteredDomainDropI_def Let_def split: sum.splits option.splits)
  moreover have "0 < label_start h seg_start \<longrightarrow> peek h (label_start h seg_start - 1) = CHR ''.''"
    using label_start_prev [of h seg_start] by auto
  ultimately show ?thesis
    using descend_no_abort by simp
qed

theorem abort_unreachable_witness:
  "getRegisteredDomainDropI ''www.example.co.uk'' scenario_tree False = Inr (Some 4)
   \<and> label_start ''www.example.co.uk'' 15 = 15
   \<and> peek ''www.example.co.uk'' 14 = CHR ''.''"
proof -
  have "label_start ''www.example.co.uk'' 15 = 15"
    by code_simp
  moreover have "getRegisteredDomainDropI ''www.example.co.uk'' scenario_tree False = Inr (Some 4)"
    by code_simp
  ultimately show ?thesis
    using abort_unreachable [of "''www.example.co.uk''" scenario_tree False "''www.example.co.uk''" 15 17]
    by simp
qed

subsection \<open>The result is a suffix of the host name\<close>

text \<open>
  Claim C9. Every non-null result of \<open>getRegisteredDomainDrop\<close> points into the host
  name, in front of its terminator, so the returned string is a non-empty suffix of the
  original host name that runs to its true end. When the host name ends with a dot, so
  does the result, although \<open>seg_end\<close> was moved in front of that dot.
\<close>

theorem result_is_suffix:
  assumes "getRegisteredDomainDrop hostname tree drop_unknown = Inr (Some r)"
  shows "(\<exists>off. getRegisteredDomainDropI hostname tree drop_unknown = Inr (Some off)
           \<and> off < length (cstr hostname) \<and> r = drop off (cstr hostname))
    \<and> suffix r (cstr hostname)
    \<and> (last (cstr hostname) = CHR ''.'' \<longrightarrow> r \<noteq> [] \<and> last r = CHR ''.'')"
proof -
  from assms obtain off where
    off: "getRegisteredDomainDropI hostname tree drop_unknown = Inr (Some off)"
    and r: "r = drop off (cstr hostname)"
    by (cases "getRegisteredDomainDropI hostname tree drop_unknown")
      (auto simp: getRegisteredDomainDrop_def)
  have b: "off < length (cstr hostname)"
    using off by (rule resolver_offset_bound)
  have "suffix r (cstr hostname)"
    unfolding r by (rule suffix_drop)
  moreover have "r \<noteq> []" and "last r = last (cstr hostname)"
    using b by (simp_all add: r)
  ultimately show ?thesis
    using off b r by auto
qed

theorem result_is_suffix_witness:
  "getRegisteredDomainDrop ''www.example.co.uk.'' scenario_tree False = Inr (Some ''uk.'')
   \<and> suffix ''uk.'' ''www.example.co.uk.'' \<and> last ''uk.'' = CHR ''.''"
proof -
  have e: "getRegisteredDomainDrop ''www.example.co.uk.'' scenario_tree False = Inr (Some ''uk.'')"
    by code_simp
  have c: "cstr ''www.example.co.uk.'' = ''www.example.co.uk.''"
    by code_simp
  from result_is_suffix [OF e] show ?thesis
    using e by (simp add: c)
qed

subsection \<open>Exact children before the wildcard\<close>

text \<open>
  Claim C5. If some child of the parent carries exactly the bytes of the query label
  \<open>[seg_start, seg_end)\<close>, the search returns a child with exactly that label, wherever
  the exact child and a \<open>*\<close> child stand among the children. The child returned is
  labelled \<open>*\<close> only when the query label itself is \<open>*\<close>. (A child whose \<open>dom\<close> is
  still NULL would stop the search in \<open>strcmp\<close>.)
\<close>

theorem exact_child_wins:
  assumes "seg_start \<le> seg_end" and "seg_end \<le> length h"
    and "\<forall>c\<in>set (subnodes parent). dom c \<noteq> None"
    and "\<exists>c\<in>set (subnodes parent). dom c = Some (label_of h seg_start seg_end)"
  shows "\<exists>c. findTldNode parent h seg_start seg_end = Inr (Some c)
     \<and> c \<in> set (subnodes parent)
     \<and> dom c = Some (label_of h seg_start seg_end)
     \<and> (label_of h seg_start seg_end \<noteq> ALL_str \<longrightarrow> dom c \<noteq> Some ALL_str)"
proof -
  from findTldNode_loop_exact [OF assms(1,2,3), of None] assms(4)
  obtain c where "findTldNode_loop (subnodes parent) h seg_start seg_end None = Inr (Some c)"
    and "dom c = Some (label_of h seg_start seg_end)" and "c \<in> set (subnodes parent)"
    by auto
  then show ?thesis
    by (auto simp: findTldNode_def)
qed

theorem exact_child_wins_witness:
  "findTldNode (Node (Some ''uk'') False [Node (Some ''*'') False [], Node (Some ''co'') False []])
      ''a.co.uk'' 2 4 = Inr (Some (Node (Some ''co'') False []))
   \<and> findTldNode (Node (Some ''uk'') False [Node (Some ''co'') False [], Node (Some ''*'') False []])
      ''a.co.uk'' 2 4 = Inr (Some (Node (Some ''co'') False []))"
proof -
  let ?star = "Node (Some ''*'') False []" and ?co = "Node (Some ''co'') False []"
  have l: "label_of ''a.co.uk'' 2 4 = ''co''"
    by code_simp
  have "\<exists>c. findTldNode (Node (Some ''uk'') False [?star, ?co]) ''a.co.uk'' 2 4 = Inr (Some c)
      \<and> c \<in> set [?star, ?co] \<and> dom c = Some ''co''"
    using exact_child_wins [of 2 4 "''a.co.uk''" "Node (Some ''uk'') False [?star, ?co]"]
    by (auto simp: l)
  moreover have "\<exists>c. findTldNode (Node (Some ''uk'') False [?co, ?star]) ''a.co.uk'' 2 4 = Inr (Some c)
      \<and> c \<in> set [?co, ?star] \<and> dom c = Some ''co''"
    using exact_child_wins [of 2 4 "''a.co.uk''" "Node (Some ''uk'') False [?co, ?star]"]
    by (auto simp: l)
  ultimately show ?thesis
    by auto
qed

subsection \<open>Exception nodes stop the descent\<close>

text \<open>
  Claim C4. When the search for the current label finds a subtree with exactly one
  child, and that child is marked as an exception, the loop is left at once and the
  start of the current label is the left edge of the candidate. For the scenario rule
  set, \<open>parliament.uk\<close> resolves to \<open>parliament.uk\<close>, not to \<open>uk\<close>.
\<close>

theorem exception_stops_descent:
  assumes "findTldNode tree h (label_start h seg_start) seg_end = Inr (Some subtree)"
    and "num_children subtree = 1" and "attr (subnodes subtree ! 0)"
  shows "descend h tree seg_start seg_end = Inr (Some (label_start h seg_start))
    \<and> getRegisteredDomain ''parliament.uk'' scenario_tree = Inr (Some ''parliament.uk'')
    \<and> getRegisteredDomain ''parliament.uk'' scenario_tree \<noteq> Inr (Some ''uk'')"
proof -
  have "descend h tree seg_start seg_end = Inr (Some (label_start h seg_start))"
    using assms by (subst descend.simps) (simp add: Let_def)
  moreover have "getRegisteredDomain ''parliament.uk'' scenario_tree = Inr (Some ''parliament.uk'')"
    by code_simp
  ultimately show ?thesis by simp
qed

theorem exception_stops_descent_witness:
  "descend ''parliament.uk'' (Node (Some ''uk'') False
          [Node (Some ''*'') False [],
           Node (Some ''parliament'') False [Node (Some '''') True []]]) 9 10 = Inr (Some 0)"
proof -
  let ?p = "Node (Some ''parliament'') False [Node (Some '''') True []]"
  let ?uk = "Node (Some ''uk'') False [Node (Some ''*'') False [], ?p]"
  have l: "label_start ''parliament.uk'' 9 = 0"
    by code_simp
  have f: "findTldNode ?uk ''parliament.uk'' (label_start ''parliament.uk'' 9) 10 = Inr (Some ?p)"
    by code_simp
  from exception_stops_descent [OF f] show ?thesis
    by (simp add: l)
qed

subsection \<open>A trailing dot\<close>

text \<open>
  Claim C1 says that a single trailing dot does not change the result. The code moves
  \<open>seg_end\<close> in front of the dot but starts the label scan on the dot itself, so the
  scan steps over it and the first label is the empty range \<open>[seg_end + 1, seg_end)\<close>,
  which matches no child but a wildcard. For the scenario rule set \<open>example.com\<close>
  resolves to itself (offset 0) and \<open>example.com.\<close> to \<open>com.\<close> (offset 8); without
  the top-level wildcard and with \<open>drop_unknown\<close> set, \<open>example.com.\<close> is not resolved
  at all.
\<close>

theorem trailing_dot_changes_result:
  "getRegisteredDomainDrop ''example.com'' scenario_tree False = Inr (Some ''example.com'')
   \<and> getRegisteredDomainDrop ''example.com.'' scenario_tree False = Inr (Some ''com.'')
   \<and> getRegisteredDomainDropI ''example.com'' scenario_tree False = Inr (Some 0)
   \<and> getRegisteredDomainDropI ''example.com.'' scenario_tree False = Inr (Some 8)
   \<and> label_start ''example.com.'' 11 = 12
   \<and> getRegisteredDomainDrop ''example.com'' scenario_tree_no_star True = Inr (Some ''example.com'')
   \<and> getRegisteredDomainDrop ''example.com.'' scenario_tree_no_star True = Inr None"
  by code_simp

subsection \<open>Results of a single label\<close>

text \<open>
  Claim C2 says that every non-null result has at least two labels. The test
  \<open>strchr(seg_start, '.')\<close> also finds the trailing dot of the host name, and the
  one-label extension starts from the empty first label of such a host name: \<open>xx.\<close>
  resolves to \<open>xx.\<close> and \<open>www.example.com.\<close> to \<open>com.\<close>, results whose only dot is
  the last character.
\<close>

theorem single_label_result:
  "getRegisteredDomainDrop ''xx.'' scenario_tree_no_star False = Inr (Some ''xx.'')
   \<and> getRegisteredDomainDrop ''www.example.com.'' scenario_tree False = Inr (Some ''com.'')
   \<and> CHR ''.'' \<notin> set (butlast ''xx.'') \<and> CHR ''.'' \<notin> set (butlast ''com.'')"
  by code_simp

subsection \<open>Unknown top-level labels\<close>

text \<open>
  Claim C3, as stated, fails: with the top-level wildcard in the rule set the label
  \<open>xx\<close> is matched by it, the candidate \<open>something.xx\<close> has two labels, and
  \<open>drop_unknown\<close> is never consulted.
\<close>

theorem drop_unknown_wildcard_counterexample:
  "\<not> (getRegisteredDomainDrop ''something.xx'' scenario_tree True = Inr None
      \<and> getRegisteredDomainDrop ''something.xx'' scenario_tree False = Inr (Some ''something.xx''))"
  by code_simp

text \<open>
  Claim C3, amended. For the scenario rule set without the top-level wildcard, where no
  top-level child matches \<open>xx\<close>, \<open>something.xx\<close> is not resolved when \<open>drop_unknown\<close>
  is set and resolves to \<open>something.xx\<close> when it is not. With the top-level wildcard
  it resolves to \<open>something.xx\<close> for either value of the flag.
\<close>

theorem unknown_tld_policy:
  "getRegisteredDomainDrop ''something.xx'' scenario_tree_no_star True = Inr None
   \<and> getRegisteredDomainDrop ''something.xx'' scenario_tree_no_star False = Inr (Some ''something.xx'')
   \<and> getRegisteredDomainDrop ''something.xx'' scenario_tree True = Inr (Some ''something.xx'')
   \<and> getRegisteredDomainDrop ''something.xx'' scenario_tree False = Inr (Some ''something.xx'')"
  by code_simp

section \<open>Properties of the decoder\<close>

subsection \<open>Fuel\<close>

text \<open>More fuel never changes a result.\<close>

lemma fuel_mono_all:
  "(\<forall>s len start m pos r. general_read f s len start m pos = Some r
       \<longrightarrow> general_read (f + k) s len start m pos = Some r)
 \<and> (\<forall>s len d m start pos r. count_read f s len d m start pos = Some r
       \<longrightarrow> count_read (f + k) s len d m start pos = Some r)
 \<and> (\<forall>s len n pos r. read_children f s len n pos = Some r
       \<longrightarrow> read_children (f + k) s len n pos = Some r)"
proof (induction f)
  case 0
  show ?case by simp
next
  case (Suc f)
  have g: "general_read (Suc f + k) s len start m pos = Some r"
    if "general_read (Suc f) s len start m pos = Some r" for s len start m pos r
    using that Suc
    by (auto simp: Let_def split: option.splits if_splits)
  have c: "count_read (Suc f + k) s len d m start pos = Some r"
    if "count_read (Suc f) s len d m start pos = Some r" for s len d m start pos r
    using that Suc
    by (auto simp: Let_def split: option.splits if_splits sum.splits prod.splits)
  have rc: "read_children (Suc f + k) s len n pos = Some r"
    if "read_children (Suc f) s len n pos = Some r" for s len n pos r
    using that Suc
    by (auto simp: Let_def split: option.splits if_splits sum.splits prod.splits)
  from g c rc show ?case by blast
qed

lemma general_read_mono:
  "general_read f s len start m pos = Some r \<Longrightarrow> f \<le> f' \<Longrightarrow> general_read f' s len start m pos = Some r"
  using fuel_mono_all [of f "f' - f"] by auto

lemma read_children_mono:
  "read_children f s len n pos = Some r \<Longrightarrow> f \<le> f' \<Longrightarrow> read_children f' s len n pos = Some r"
  using fuel_mono_all [of f "f' - f"] by auto

lemma count_read_mono:
  "count_read f s len d m start pos = Some r \<Longrightarrow> f \<le> f' \<Longrightarrow> count_read f' s len d m start pos = Some r"
  using fuel_mono_all [of f "f' - f"] by auto

subsection \<open>Scanning a run and a count\<close>

lemma byte_at_mid [simp]: "byte_at (a @ c # b) (length a) = Some c"
  by (simp add: byte_at_def)

lemma general_read_run:
  assumes "\<forall>c\<in>set l. \<not> is_delim c" and "length a + length l < len"
  shows "general_read (length l + k) (a @ l @ b) len start m (length a)
       = general_read k (a @ l @ b) len start (m \<or> CHR ''!'' \<in> set l) (length a + length l)"
  using assms
proof (induction l arbitrary: a m)
  case Nil
  show ?case by simp
next
  case (Cons c l)
  have "general_read (length (c # l) + k) (a @ (c # l) @ b) len start m (length a)
      = general_read (length l + k) ((a @ [c]) @ l @ b) len start (m \<or> c = CHR ''!'') (length (a @ [c]))"
    using Cons.prems by (simp add: is_delim_def Let_def)
  also have "\<dots> = general_read k ((a @ [c]) @ l @ b) len start
      ((m \<or> c = CHR ''!'') \<or> CHR ''!'' \<in> set l) (length (a @ [c]) + length l)"
    using Cons.prems by (intro Cons.IH) auto
  finally show ?case
    by (simp add: disj_commute disj_left_commute eq_commute [of c] cong: disj_cong)
qed

lemma count_read_run:
  assumes "CHR '':'' \<notin> set ds" and "length a + length ds < len"
  shows "count_read (length ds + k) (a @ ds @ b) len d m start (length a)
       = count_read k (a @ ds @ b) len d m start (length a + length ds)"
  using assms
proof (induction ds arbitrary: a)
  case Nil
  show ?case by simp
next
  case (Cons c ds)
  have "count_read (length (c # ds) + k) (a @ (c # ds) @ b) len d m start (length a)
      = count_read (length ds + k) ((a @ [c]) @ ds @ b) len d m start (length (a @ [c]))"
    using Cons.prems by (auto simp: Let_def)
  also have "\<dots> = count_read k ((a @ [c]) @ ds @ b) len d m start (length (a @ [c]) + length ds)"
    using Cons.prems by (intro Cons.IH) auto
  finally show ?case by simp
qed

subsection \<open>The decimal count\<close>

lemma isdigit_digit: "d < 10 \<Longrightarrow> isdigit (digit d)"
  by (simp add: isdigit_def digit_def)

lemma of_char_digit: "d < 10 \<Longrightarrow> (of_char (digit d) :: int) = 48 + int d"
proof -
  assume d: "d < 10"
  have "(of_char (digit d) :: nat) = 48 + d"
    using d by (simp add: digit_def)
  then have "int (of_char (digit d)) = 48 + int d"
    by simp
  then show ?thesis
    by (simp add: of_nat_of_char)
qed

lemma decimal_digits: "\<forall>c\<in>set (decimal n). isdigit c"
proof (induction n rule: decimal.induct)
  case (1 n)
  show ?case
  proof (cases "n < 10")
    case True
    then show ?thesis
      by (subst decimal.simps) (simp add: isdigit_digit)
  next
    case False
    with 1 show ?thesis
      by (subst decimal.simps) (simp add: isdigit_digit)
  qed
qed

lemma decimal_nonempty: "decimal n \<noteq> []"
  by (subst decimal.simps) simp

lemma atoi_digits_append:
  "\<forall>c\<in>set xs. isdigit c \<Longrightarrow> atoi_digits acc (xs @ ys) = atoi_digits (atoi_digits acc xs) ys"
  by (induction xs arbitrary: acc) auto

lemma atoi_digits_decimal:
  "atoi_digits acc (decimal n) = acc * 10 ^ length (decimal n) + int n"
proof (induction n arbitrary: acc rule: decimal.induct)
  case (1 n)
  show ?case
  proof (cases "n < 10")
    case True
    then show ?thesis
      by (subst (1 2) decimal.simps) (simp add: isdigit_digit of_char_digit)
  next
    case False
    have "atoi_digits acc (decimal n)
        = atoi_digits (atoi_digits acc (decimal (n div 10))) [digit (n mod 10)]"
      using False decimal_digits [of "n div 10"]
      by (subst decimal.simps) (simp add: atoi_digits_append)
    also have "\<dots> = 10 * (acc * 10 ^ length (decimal (n div 10)) + int (n div 10)) + int (n mod 10)"
      using False by (simp add: "1.IH" isdigit_digit of_char_digit)
    also have "\<dots> = acc * 10 ^ length (decimal n) + int n"
    proof -
      have len: "length (decimal n) = Suc (length (decimal (n div 10)))"
        using False by (subst decimal.simps) simp
      have "n = 10 * (n div 10) + n mod 10"
        by simp
      then have "int n = int (10 * (n div 10) + n mod 10)"
        by (rule arg_cong)
      then have n: "int n = 10 * int (n div 10) + int (n mod 10)"
        by (simp only: of_nat_add of_nat_mult of_nat_numeral)
      show ?thesis
        unfolding len by (simp only: n power_Suc algebra_simps)
    qed
    finally show ?thesis .
  qed
qed

lemma isdigit_not_special:
  assumes "isdigit c"
  shows "\<not> isspace c" and "c \<noteq> CHR ''-''" and "c \<noteq> CHR ''+''" and "c \<noteq> NUL" and "c \<noteq> CHR '':''"
  using assms by (auto simp: isdigit_def isspace_def)

lemma atoi_decimal: "atoi (decimal n) = int n"
proof -
  obtain c cs where d: "decimal n = c # cs"
    using decimal_nonempty [of n] by (cases "decimal n") auto
  have c: "isdigit c"
    using decimal_digits [of n] d by simp
  have "atoi (decimal n) = atoi_digits 0 (decimal n)"
    using isdigit_not_special [OF c] by (simp add: atoi_def d)
  then show ?thesis
    by (simp add: atoi_digits_decimal)
qed

lemma cstr_id: "NUL \<notin> set xs \<Longrightarrow> cstr xs = xs"
  unfolding cstr_def by (rule takeWhile_eq_all_conv [THEN iffD2]) auto

lemma cstr_decimal: "cstr (decimal n) = decimal n"
  using decimal_digits [of n] isdigit_not_special(4) by (intro cstr_id) blast

lemma decimal_no_colon: "CHR '':'' \<notin> set (decimal n)"
  using decimal_digits [of n] isdigit_not_special(5) by blast

subsection \<open>Nodes and child blocks\<close>

lemma general_read_leaf:
  assumes "\<forall>c\<in>set l. \<not> is_delim c" and "d = CHR '','' \<or> d = CHR '')''"
  shows "general_read (Suc (length l)) (pre @ l @ d # rest) (length (pre @ l @ d # rest))
           (length pre) False (length pre)
       = Some (Inr (Node (Some (stored l)) (CHR ''!'' \<in> set l) [], length pre + length l))"
proof -
  let ?s = "pre @ l @ d # rest"
  have "general_read (length l + 1) ?s (length ?s) (length pre) False (length pre)
      = general_read 1 ?s (length ?s) (length pre) (False \<or> CHR ''!'' \<in> set l)
          (length pre + length l)"
    using assms(1) by (intro general_read_run) auto
  moreover have "byte_at ?s (length pre + length l) = Some d"
    using byte_at_mid [of "pre @ l" d rest] by simp
  moreover have "take (length l) (drop (length pre) ?s) = l"
    and "take (length l - Suc 0) (drop (length pre) ?s) = butlast l"
    by (simp_all add: butlast_conv_take)
  ultimately show ?thesis
    using assms(2) by (auto simp: stored_def)
qed

lemma read_children_zero: "read_children (Suc f) s len 0 pos = Some (Inr ([], pos))"
  by simp

lemma read_children_step:
  assumes "general_read n1 s len (Suc pos) False (Suc pos) = Some (Inr (c, pos'))"
    and "read_children n2 s len n pos' = Some (Inr (cs, pos''))"
  shows "read_children (Suc (max n1 n2)) s len (Suc n) pos = Some (Inr (c # cs, pos''))"
proof -
  have "general_read (max n1 n2) s len (Suc pos) False (Suc pos) = Some (Inr (c, pos'))"
    using assms(1) by (rule general_read_mono) simp
  moreover have "read_children (max n1 n2) s len n pos' = Some (Inr (cs, pos''))"
    using assms(2) by (rule read_children_mono) simp
  ultimately show ?thesis by simp
qed

lemma delimited_Cons: "delimited (d # t) \<longleftrightarrow> d = CHR '','' \<or> d = CHR '')''"
  by (simp add: delimited_def)

lemma reads_backD:
  assumes "reads_back c" and "kids c = [] \<longrightarrow> delimited rest"
  shows "\<exists>n. general_read n (pre @ render c @ rest) (length (pre @ render c @ rest))
                (length pre) False (length pre)
              = Some (Inr (decoded c, length pre + length (render c)))"
  using assms unfolding reads_back_def by blast

lemma join_Cons: "ys \<noteq> [] \<Longrightarrow> join (x # ys) = x @ CHR '','' # join ys"
  by (cases ys) auto

lemma read_children_block:
  assumes "cs \<noteq> []" and "\<forall>c\<in>set cs. reads_back c"
  shows "\<exists>n. read_children n (a @ x # join (map render cs) @ CHR '')'' # rest)
            (length (a @ x # join (map render cs) @ CHR '')'' # rest)) (length cs) (length a)
          = Some (Inr (map decoded cs, Suc (length a) + length (join (map render cs))))"
  using assms
proof (induction cs arbitrary: a x rule: list_nonempty_induct)
  case (single c)
  let ?s = "(a @ [x]) @ render c @ CHR '')'' # rest"
  from single have "reads_back c" by simp
  moreover have "kids c = [] \<longrightarrow> delimited (CHR '')'' # rest)"
    by (simp add: delimited_Cons)
  ultimately have "\<exists>n. general_read n ?s (length ?s) (length (a @ [x])) False (length (a @ [x]))
       = Some (Inr (decoded c, length (a @ [x]) + length (render c)))"
    by (rule reads_backD)
  then obtain n1 where
    "general_read n1 ?s (length ?s) (length (a @ [x])) False (length (a @ [x]))
       = Some (Inr (decoded c, length (a @ [x]) + length (render c)))" ..
  then have "general_read n1 ?s (length ?s) (Suc (length a)) False (Suc (length a))
       = Some (Inr (decoded c, Suc (length a) + length (render c)))"
    by simp
  from read_children_step [OF this read_children_zero [of 0]]
  have "read_children (Suc (max n1 (Suc 0))) ?s (length ?s) (Suc 0) (length a)
      = Some (Inr ([decoded c], Suc (length a) + length (render c)))" .
  then show ?case
    by (intro exI [of _ "Suc (max n1 (Suc 0))"]) simp
next
  case (cons c cs)
  let ?s = "(a @ [x]) @ render c @ CHR '','' # join (map render cs) @ CHR '')'' # rest"
  from cons.prems have "reads_back c" by simp
  moreover have "kids c = [] \<longrightarrow> delimited (CHR '','' # join (map render cs) @ CHR '')'' # rest)"
    by (simp add: delimited_Cons)
  ultimately have "\<exists>n. general_read n ?s (length ?s) (length (a @ [x])) False (length (a @ [x]))
       = Some (Inr (decoded c, length (a @ [x]) + length (render c)))"
    by (rule reads_backD)
  then obtain n1 where
    "general_read n1 ?s (length ?s) (length (a @ [x])) False (length (a @ [x]))
       = Some (Inr (decoded c, length (a @ [x]) + length (render c)))" ..
  then have g: "general_read n1 ?s (length ?s) (Suc (length a)) False (Suc (length a))
       = Some (Inr (decoded c, Suc (length a) + length (render c)))"
    by simp
  from cons.prems have "\<forall>c\<in>set cs. reads_back c" by simp
  from cons.IH [OF this, of "a @ x # render c" "CHR '',''"] obtain n2 where
    "read_children n2 ((a @ x # render c) @ CHR '','' # join (map render cs) @ CHR '')'' # rest)
       (length ((a @ x # render c) @ CHR '','' # join (map render cs) @ CHR '')'' # rest))
       (length cs) (length (a @ x # render c))
     = Some (Inr (map decoded cs, Suc (length (a @ x # render c)) + length (join (map render cs))))"
    by blast
  then have r: "read_children n2 ?s (length ?s) (length cs) (Suc (length a) + length (render c))
     = Some (Inr (map decoded cs, Suc (Suc (length a) + length (render c)) + length (join (map render cs))))"
    by simp
  have j: "join (map render (c # cs)) = render c @ CHR '','' # join (map render cs)"
    using cons.hyps by (simp add: join_Cons)
  from read_children_step [OF g r]
  have "read_children (Suc (max n1 n2)) ?s (length ?s) (Suc (length cs)) (length a)
     = Some (Inr (decoded c # map decoded cs,
         Suc (Suc (length a) + length (render c)) + length (join (map render cs))))" .
  then show ?case
    unfolding j by (intro exI [of _ "Suc (max n1 n2)"]) simp
qed

lemma general_read_open:
  assumes "byte_at s pos = Some (CHR ''('')" and "Suc pos < len"
  shows "general_read (Suc k) s len start m pos
       = count_read k s len
           (cstr (take (if m then pos - start - 1 else pos - start) (drop start s))) m pos (Suc pos)"
  using assms by (simp add: Let_def)

lemma count_read_colon:
  assumes "byte_at s pos = Some (CHR '':'')"
    and "atoi (cstr (take (pos - start - 1) (drop (Suc start) s))) = int n"
    and "n < 2 ^ 31"
    and "read_children k s len n pos = Some (Inr (cs, pos'))"
  shows "count_read (Suc k) s len d m start pos = Some (Inr (Node (Some d) m cs, Suc pos'))"
proof -
  have "nat (int n mod 2 ^ 32) = n"
    using assms(3) by (simp add: nat_mod_distrib)
  moreover have "\<not> (int n < - (2 ^ 31) \<or> 2 ^ 31 \<le> int n)"
    using assms(3) by simp
  ultimately show ?thesis
    using assms(1,2,4) by (simp add: Let_def)
qed

lemma general_read_block:
  assumes l: "\<forall>c\<in>set l. \<not> is_delim c" and ne: "cs \<noteq> []" and n31: "length cs < 2 ^ 31"
    and kids: "\<forall>c\<in>set cs. reads_back c"
  shows "\<exists>n. general_read n (pre @ render (Enc l cs) @ rest)
            (length (pre @ render (Enc l cs) @ rest)) (length pre) False (length pre)
          = Some (Inr (decoded (Enc l cs), length pre + length (render (Enc l cs))))"
proof -
  define N where "N = decimal (length cs)"
  define body where "body = join (map render cs)"
  define tail where "tail = CHR '':'' # body @ CHR '')'' # rest"
  define s where "s = pre @ l @ CHR ''('' # N @ tail"
  define p1 where "p1 = length pre + length l"
  define p2 where "p2 = Suc p1 + length N"
  define m where "m = (CHR ''!'' \<in> set l)"
  have s_eq: "pre @ render (Enc l cs) @ rest = s"
    using ne by (simp add: s_def tail_def N_def body_def)
  have len: "length s = length pre + length l + length N + length body + 3 + length rest"
    by (simp add: s_def tail_def)
  have s_colon: "s = (pre @ l @ CHR ''('' # N) @ CHR '':'' # body @ CHR '')'' # rest"
    by (simp add: s_def tail_def)
  have "\<exists>n. read_children n s (length s) (length cs) p2
      = Some (Inr (map decoded cs, Suc p2 + length body))"
    using read_children_block [OF ne kids, of "pre @ l @ CHR ''('' # N" "CHR '':''" rest]
    by (simp add: s_colon body_def p2_def p1_def ac_simps)
  then obtain n where rc:
    "read_children n s (length s) (length cs) p2 = Some (Inr (map decoded cs, Suc p2 + length body))"
    by blast
  have "general_read (length l + Suc (length N + Suc n)) s (length s) (length pre) False (length pre)
      = general_read (Suc (length N + Suc n)) s (length s) (length pre) (False \<or> CHR ''!'' \<in> set l)
          (length pre + length l)"
    unfolding s_def using l by (intro general_read_run) (auto simp: tail_def)
  also have "\<dots> = general_read (Suc (length N + Suc n)) s (length s) (length pre) m p1"
    by (simp add: m_def p1_def)
  also have "\<dots> = count_read (length N + Suc n) s (length s) (stored l) m p1 (Suc p1)"
  proof -
    have b: "byte_at s p1 = Some (CHR ''('')"
      using byte_at_mid [of "pre @ l" "CHR ''(''" "N @ tail"] by (simp add: s_def p1_def)
    have "take (length l) (drop (length pre) s) = l"
      and "take (length l - Suc 0) (drop (length pre) s) = butlast l"
      by (simp_all add: s_def butlast_conv_take)
    then have d: "cstr (take (if m then p1 - length pre - 1 else p1 - length pre)
        (drop (length pre) s)) = stored l"
      by (simp add: stored_def m_def p1_def)
    have "Suc p1 < length s"
      by (simp add: len p1_def)
    from general_read_open [OF b this, of "length N + Suc n" "length pre" m] show ?thesis
      unfolding d .
  qed
  also have "\<dots> = count_read (Suc n) s (length s) (stored l) m p1 p2"
  proof -
    have "count_read (length N + Suc n) ((pre @ l @ ''('') @ N @ tail) (length s) (stored l) m p1
            (length (pre @ l @ ''(''))
        = count_read (Suc n) ((pre @ l @ ''('') @ N @ tail) (length s) (stored l) m p1
            (length (pre @ l @ ''('') + length N)"
      using decimal_no_colon [of "length cs"]
      by (intro count_read_run) (auto simp: N_def len)
    then show ?thesis
      by (simp add: s_def p1_def p2_def)
  qed
  also have "\<dots> = Some (Inr (Node (Some (stored l)) m (map decoded cs), Suc (Suc p2 + length body)))"
  proof -
    have b: "byte_at s p2 = Some (CHR '':'')"
      using byte_at_mid [of "pre @ l @ CHR ''('' # N" "CHR '':''" "body @ CHR '')'' # rest"]
      by (simp add: s_colon p2_def p1_def ac_simps)
    have "take (p2 - p1 - 1) (drop (Suc p1) s) = N"
      by (simp add: s_def p1_def p2_def)
    then have a: "atoi (cstr (take (p2 - p1 - 1) (drop (Suc p1) s))) = int (length cs)"
      by (simp add: N_def cstr_decimal atoi_decimal)
    from b a n31 rc show ?thesis
      by (rule count_read_colon)
  qed
  finally have r: "general_read (length l + Suc (length N + Suc n)) s (length s) (length pre) False
      (length pre) = Some (Inr (Node (Some (stored l)) m (map decoded cs), Suc (Suc p2 + length body)))" .
  have d: "decoded (Enc l cs) = Node (Some (stored l)) m (map decoded cs)"
    by (simp add: stored_def m_def)
  have e: "Suc (Suc p2 + length body) = length pre + length (render (Enc l cs))"
    using ne by (simp add: p2_def p1_def N_def body_def)
  have "general_read (length l + Suc (length N + Suc n)) (pre @ render (Enc l cs) @ rest)
      (length (pre @ render (Enc l cs) @ rest)) (length pre) False (length pre)
      = Some (Inr (decoded (Enc l cs), length pre + length (render (Enc l cs))))"
    using r by (simp only: s_eq d e)
  then show ?thesis
    by (rule exI)
qed

lemma reads_back_wf: "wf_enc e \<Longrightarrow> reads_back e"
proof (induction e)
  case (Enc l cs)
  from Enc.prems have l: "\<forall>c\<in>set l. \<not> is_delim c" and n31: "length cs < 2 ^ 31"
    and wf: "\<forall>c\<in>set cs. wf_enc c"
    by simp_all
  show ?case
  proof (cases "cs = []")
    case True
    show ?thesis
      unfolding reads_back_def
    proof (intro allI impI)
      fix pre rest
      assume "kids (Enc l cs) = [] \<longrightarrow> delimited rest"
      with True obtain d t where rest: "rest = d # t" and d: "d = CHR '','' \<or> d = CHR '')''"
        by (cases rest) (auto simp: delimited_def)
      have "general_read (Suc (length l)) (pre @ l @ d # t) (length (pre @ l @ d # t))
           (length pre) False (length pre)
         = Some (Inr (Node (Some (stored l)) (CHR ''!'' \<in> set l) [], length pre + length l))"
        using l d by (rule general_read_leaf)
      moreover have "render (Enc l cs) = l" and "decoded (Enc l cs) = Node (Some (stored l)) (CHR ''!'' \<in> set l) []"
        using True by (simp_all add: stored_def)
      ultimately have "general_read (Suc (length l)) (pre @ render (Enc l cs) @ rest)
            (length (pre @ render (Enc l cs) @ rest)) (length pre) False (length pre)
          = Some (Inr (decoded (Enc l cs), length pre + length (render (Enc l cs))))"
        by (simp only: rest)
      then show "\<exists>n. general_read n (pre @ render (Enc l cs) @ rest)
            (length (pre @ render (Enc l cs) @ rest)) (length pre) False (length pre)
          = Some (Inr (decoded (Enc l cs), length pre + length (render (Enc l cs))))"
        by (rule exI)
    qed
  next
    case False
    have "\<forall>c\<in>set cs. reads_back c"
      using Enc.IH wf by blast
    from general_read_block [OF l False n31 this] show ?thesis
      unfolding reads_back_def by blast
  qed
qed

subsection \<open>Where the children stand\<close>

lemma join_layout:
  assumes "i < length xs" and "a \<noteq> []"
  shows "\<exists>u v. a @ join xs @ CHR '')'' # rest = u @ xs ! i @ v
      \<and> length u = child_starts (length a) xs ! i
      \<and> u \<noteq> [] \<and> last u = (if i = 0 then last a else CHR '','')
      \<and> delimited v"
  using assms
proof (induction xs arbitrary: i a)
  case Nil
  then show ?case by simp
next
  case (Cons x xs)
  show ?case
  proof (cases i)
    case 0
    show ?thesis
    proof (cases "xs = []")
      case True
      with 0 Cons.prems show ?thesis
        by (intro exI [of _ a] exI [of _ "CHR '')'' # rest"]) (simp add: delimited_Cons)
    next
      case False
      with 0 Cons.prems show ?thesis
        by (intro exI [of _ a] exI [of _ "CHR '','' # join xs @ CHR '')'' # rest"])
          (simp add: join_Cons delimited_Cons)
    qed
  next
    case (Suc j)
    with Cons.prems have j: "j < length xs" and ne: "xs \<noteq> []"
      by auto
    from Cons.IH [OF j, of "a @ x @ [CHR '','']"] obtain u v where
      uv: "(a @ x @ [CHR '','']) @ join xs @ CHR '')'' # rest = u @ xs ! j @ v"
        "length u = child_starts (length (a @ x @ [CHR '',''])) xs ! j"
        "u \<noteq> []" "last u = (if j = 0 then last (a @ x @ [CHR '','']) else CHR '','')"
        "delimited v"
      by blast
    have "a @ join (x # xs) @ CHR '')'' # rest = u @ (x # xs) ! i @ v"
      using uv(1) ne Suc by (simp add: join_Cons)
    moreover have "length u = child_starts (length a) (x # xs) ! i"
      using uv(2) Suc by simp
    moreover have "last u = (if i = 0 then last a else CHR '','')"
      using uv(4) Suc by simp
    ultimately show ?thesis
      using uv(3,5) by blast
  qed
qed

lemma uniform_fuel:
  "(\<forall>i<k::nat. \<exists>n::nat. \<forall>f\<ge>n. P i f) \<Longrightarrow> \<exists>n. \<forall>f\<ge>n. \<forall>i<k. P i f"
proof (induction k)
  case 0
  show ?case by simp
next
  case (Suc k)
  then obtain n1 where n1: "\<forall>f\<ge>n1. \<forall>i<k. P i f"
    by fastforce
  from Suc.prems obtain n2 where n2: "\<forall>f\<ge>n2. P k f"
    by blast
  have "\<forall>f\<ge>max n1 n2. \<forall>i<Suc k. P i f"
    using n1 n2 by (auto simp: less_Suc_eq)
  then show ?case by blast
qed

lemma readTldString_mono:
  "readTldString f s len pos = Some r \<Longrightarrow> f \<le> f' \<Longrightarrow> readTldString f' s len pos = Some r"
  unfolding readTldString_def by (rule general_read_mono)

lemma reads_back_from:
  assumes "wf_enc c" and "kids c = [] \<longrightarrow> delimited rest"
  shows "\<exists>n. \<forall>f\<ge>n. readTldString f (pre @ render c @ rest) (length (pre @ render c @ rest)) (length pre)
      = Some (Inr (decoded c, length pre + length (render c)))"
proof -
  from reads_back_wf [OF assms(1)] assms(2)
  have "\<exists>n. general_read n (pre @ render c @ rest) (length (pre @ render c @ rest))
      (length pre) False (length pre) = Some (Inr (decoded c, length pre + length (render c)))"
    by (rule reads_backD)
  then obtain n where
    "readTldString n (pre @ render c @ rest) (length (pre @ render c @ rest)) (length pre)
      = Some (Inr (decoded c, length pre + length (render c)))"
    unfolding readTldString_def ..
  then have "\<forall>f\<ge>n. readTldString f (pre @ render c @ rest) (length (pre @ render c @ rest)) (length pre)
      = Some (Inr (decoded c, length pre + length (render c)))"
    by (blast intro: readTldString_mono)
  then show ?thesis ..
qed

lemma child_block_layout:
  fixes pre rest :: string
  assumes wf: "wf_enc (Enc l cs)" and ne: "cs \<noteq> []"
  defines "s \<equiv> pre @ render (Enc l cs) @ rest"
  defines "ps \<equiv> child_positions (length pre) (Enc l cs)"
  shows "\<exists>n. \<forall>fuel\<ge>n.
      readTldString fuel s (length s) (length pre)
        = Some (Inr (decoded (Enc l cs), length pre + length (render (Enc l cs))))
      \<and> (\<forall>i<length cs.
           readTldString fuel s (length s) (ps ! i)
             = Some (Inr (decoded (cs ! i), ps ! i + length (render (cs ! i))))
           \<and> s ! (ps ! i - 1) = (if i = 0 then CHR '':'' else CHR '',''))"
proof -
  define T where "T f \<longleftrightarrow> readTldString f s (length s) (length pre)
        = Some (Inr (decoded (Enc l cs), length pre + length (render (Enc l cs))))" for f
  define Q where "Q i f \<longleftrightarrow> readTldString f s (length s) (ps ! i)
        = Some (Inr (decoded (cs ! i), ps ! i + length (render (cs ! i))))
      \<and> s ! (ps ! i - 1) = (if i = 0 then CHR '':'' else CHR '','')" for i f
  define a where "a = pre @ l @ CHR ''('' # decimal (length cs) @ '':''"
  have s_a: "s = a @ join (map render cs) @ CHR '')'' # rest"
    using ne by (simp add: s_def a_def)
  have a_ne: "a \<noteq> []" and a_last: "last a = CHR '':''"
    by (simp_all add: a_def)
  have ps: "ps = child_starts (length a) (map render cs)"
    by (simp add: ps_def child_positions_def a_def ac_simps)
  have "kids (Enc l cs) = [] \<longrightarrow> delimited rest"
    using ne by simp
  with wf have "\<exists>n. \<forall>f\<ge>n. readTldString f (pre @ render (Enc l cs) @ rest)
        (length (pre @ render (Enc l cs) @ rest)) (length pre)
      = Some (Inr (decoded (Enc l cs), length pre + length (render (Enc l cs))))"
    by (rule reads_back_from)
  then have top: "\<exists>n. \<forall>f\<ge>n. T f"
    unfolding T_def s_def .
  have "\<forall>i<length cs. \<exists>n. \<forall>f\<ge>n. Q i f"
  proof (intro allI impI)
    fix i
    assume i: "i < length cs"
    then have wfi: "wf_enc (cs ! i)"
      using wf by simp
    have "\<exists>u v. a @ join (map render cs) @ CHR '')'' # rest = u @ map render cs ! i @ v
      \<and> length u = child_starts (length a) (map render cs) ! i
      \<and> u \<noteq> [] \<and> last u = (if i = 0 then last a else CHR '','')
      \<and> delimited v"
      using i a_ne by (intro join_layout) simp_all
    then obtain u v where
      uv1: "a @ join (map render cs) @ CHR '')'' # rest = u @ map render cs ! i @ v"
      and uv2: "length u = child_starts (length a) (map render cs) ! i"
      and uv3: "u \<noteq> []" and uv4: "last u = (if i = 0 then last a else CHR '','')"
      and uv5: "delimited v"
      by (elim exE conjE)
    have s_u: "s = u @ render (cs ! i) @ v"
      using uv1 i by (simp add: s_a)
    have lu: "length u = ps ! i"
      using uv2 by (simp only: ps)
    have "(u @ render (cs ! i) @ v) ! (length u - 1) = last u"
      using uv3 by (simp add: nth_append last_conv_nth)
    then have "s ! (ps ! i - 1) = last u"
      by (simp only: s_u lu)
    then have ch: "s ! (ps ! i - 1) = (if i = 0 then CHR '':'' else CHR '','')"
      by (simp only: uv4 a_last)
    have "kids (cs ! i) = [] \<longrightarrow> delimited v"
      using uv5 by (rule impI)
    with wfi have "\<exists>n. \<forall>f\<ge>n. readTldString f (u @ render (cs ! i) @ v)
          (length (u @ render (cs ! i) @ v)) (length u)
        = Some (Inr (decoded (cs ! i), length u + length (render (cs ! i))))"
      by (rule reads_back_from)
    then have "\<exists>n. \<forall>f\<ge>n. readTldString f s (length s) (ps ! i)
        = Some (Inr (decoded (cs ! i), ps ! i + length (render (cs ! i))))"
      by (simp only: s_u [symmetric] lu)
    with ch show "\<exists>n. \<forall>f\<ge>n. Q i f"
      unfolding Q_def by simp
  qed
  then have "\<exists>n. \<forall>f\<ge>n. \<forall>i<length cs. Q i f"
    by (rule uniform_fuel)
  then obtain n1 where n1: "\<forall>f\<ge>n1. \<forall>i<length cs. Q i f" ..
  from top obtain n0 where n0: "\<forall>f\<ge>n0. T f" ..
  have "\<forall>fuel\<ge>max n0 n1. T fuel \<and> (\<forall>i<length cs. Q i fuel)"
    using n0 n1 by simp
  then have "\<exists>n. \<forall>fuel\<ge>n. T fuel \<and> (\<forall>i<length cs. Q i fuel)" ..
  then show ?thesis
    unfolding T_def Q_def .
qed

subsection \<open>Child blocks\<close>

text \<open>
  Claim C7. For every well-formed encoding of a node whose run is followed by a child
  block with the decimal count \<open>N\<close> of its children, standing anywhere in the encoded
  text, the decoder (with enough fuel) returns a node with exactly \<open>N\<close> children and
  the position just behind the closing parenthesis of the block. The \<open>i\<close>-th child is
  what the decoder returns when it starts one position behind the preceding delimiter:
  the colon for the first child, the separating comma for the later ones.
\<close>

theorem child_block_decoded:
  assumes "wf_enc (Enc l cs)" and "cs \<noteq> []"
  shows "\<exists>n. \<forall>fuel\<ge>n. \<exists>node.
      readTldString fuel (pre @ render (Enc l cs) @ rest)
          (length (pre @ render (Enc l cs) @ rest)) (length pre)
        = Some (Inr (node, length pre + length (render (Enc l cs))))
      \<and> (pre @ render (Enc l cs) @ rest) ! (length pre + length (render (Enc l cs)) - 1) = CHR '')''
      \<and> num_children node = length cs
      \<and> (\<forall>i<length cs.
           readTldString fuel (pre @ render (Enc l cs) @ rest)
               (length (pre @ render (Enc l cs) @ rest))
               (child_positions (length pre) (Enc l cs) ! i)
             = Some (Inr (subnodes node ! i,
                 child_positions (length pre) (Enc l cs) ! i + length (render (cs ! i))))
           \<and> (pre @ render (Enc l cs) @ rest) ! (child_positions (length pre) (Enc l cs) ! i - 1)
             = (if i = 0 then CHR '':'' else CHR '',''))"
proof -
  define s where "s = pre @ render (Enc l cs) @ rest"
  define ps where "ps = child_positions (length pre) (Enc l cs)"
  define node where "node = decoded (Enc l cs)"
  define e where "e = length pre + length (render (Enc l cs))"
  from child_block_layout [OF assms, of pre rest] obtain n where n: "\<forall>fuel\<ge>n.
      readTldString fuel s (length s) (length pre) = Some (Inr (node, e))
      \<and> (\<forall>i<length cs.
           readTldString fuel s (length s) (ps ! i)
             = Some (Inr (decoded (cs ! i), ps ! i + length (render (cs ! i))))
           \<and> s ! (ps ! i - 1) = (if i = 0 then CHR '':'' else CHR '',''))"
    unfolding s_def ps_def node_def e_def ..
  have close: "s ! (e - 1) = CHR '')''"
  proof -
    define r where "r = render (Enc l cs)"
    have "r \<noteq> []" and "last r = CHR '')''"
      using assms(2) by (simp_all add: r_def)
    then obtain ys where "r = ys @ '')''"
      by (cases r rule: rev_cases) auto
    then have "(pre @ r @ rest) ! (length pre + length r - 1) = CHR '')''"
      by (simp add: nth_append)
    then show ?thesis
      by (simp only: r_def s_def e_def)
  qed
  have kids: "num_children node = length cs"
    and kid: "\<forall>i<length cs. subnodes node ! i = decoded (cs ! i)"
    by (simp_all add: node_def)
  have "\<forall>fuel\<ge>n. \<exists>node.
      readTldString fuel s (length s) (length pre) = Some (Inr (node, e))
      \<and> s ! (e - 1) = CHR '')''
      \<and> num_children node = length cs
      \<and> (\<forall>i<length cs.
           readTldString fuel s (length s) (ps ! i)
             = Some (Inr (subnodes node ! i, ps ! i + length (render (cs ! i))))
           \<and> s ! (ps ! i - 1) = (if i = 0 then CHR '':'' else CHR '',''))"
  proof (intro allI impI)
    fix fuel
    assume "n \<le> fuel"
    then have nf: "readTldString fuel s (length s) (length pre) = Some (Inr (node, e))
      \<and> (\<forall>i<length cs.
           readTldString fuel s (length s) (ps ! i)
             = Some (Inr (decoded (cs ! i), ps ! i + length (render (cs ! i))))
           \<and> s ! (ps ! i - 1) = (if i = 0 then CHR '':'' else CHR '',''))"
      by (rule n [rule_format])
    have t: "readTldString fuel s (length s) (length pre) = Some (Inr (node, e))"
      using nf by (rule conjunct1)
    have c: "\<forall>i<length cs.
           readTldString fuel s (length s) (ps ! i)
             = Some (Inr (decoded (cs ! i), ps ! i + length (render (cs ! i))))
           \<and> s ! (ps ! i - 1) = (if i = 0 then CHR '':'' else CHR '','')"
      using nf by (rule conjunct2)
    have c': "\<forall>i<length cs.
           readTldString fuel s (length s) (ps ! i)
             = Some (Inr (subnodes node ! i, ps ! i + length (render (cs ! i))))
           \<and> s ! (ps ! i - 1) = (if i = 0 then CHR '':'' else CHR '','')"
    proof (intro allI impI)
      fix i
      assume i: "i < length cs"
      from i have k: "subnodes node ! i = decoded (cs ! i)"
        by (rule kid [rule_format])
      from i have "readTldString fuel s (length s) (ps ! i)
             = Some (Inr (decoded (cs ! i), ps ! i + length (render (cs ! i))))
           \<and> s ! (ps ! i - 1) = (if i = 0 then CHR '':'' else CHR '','')"
        by (rule c [rule_format])
      then show "readTldString fuel s (length s) (ps ! i)
             = Some (Inr (subnodes node ! i, ps ! i + length (render (cs ! i))))
           \<and> s ! (ps ! i - 1) = (if i = 0 then CHR '':'' else CHR '','')"
        by (simp only: k)
    qed
    show "\<exists>node.
      readTldString fuel s (length s) (length pre) = Some (Inr (node, e))
      \<and> s ! (e - 1) = CHR '')''
      \<and> num_children node = length cs
      \<and> (\<forall>i<length cs.
           readTldString fuel s (length s) (ps ! i)
             = Some (Inr (subnodes node ! i, ps ! i + length (render (cs ! i))))
           \<and> s ! (ps ! i - 1) = (if i = 0 then CHR '':'' else CHR '',''))"
      using t close kids c' by (intro exI [of _ node] conjI)
  qed
  then have "\<exists>n. \<forall>fuel\<ge>n. \<exists>node.
      readTldString fuel s (length s) (length pre) = Some (Inr (node, e))
      \<and> s ! (e - 1) = CHR '')''
      \<and> num_children node = length cs
      \<and> (\<forall>i<length cs.
           readTldString fuel s (length s) (ps ! i)
             = Some (Inr (subnodes node ! i, ps ! i + length (render (cs ! i))))
           \<and> s ! (ps ! i - 1) = (if i = 0 then CHR '':'' else CHR '',''))"
    by (rule exI [of _ n])
  then show ?thesis
    unfolding s_def ps_def e_def .
qed

theorem child_block_decoded_witness:
  "\<exists>n. \<forall>fuel\<ge>n. \<exists>node.
      readTldString fuel ''root(3:com,uk(2:*,parliament(1:!)),*)'' 37 11 = Some (Inr (node, 34))
      \<and> num_children node = 2
      \<and> readTldString fuel ''root(3:com,uk(2:*,parliament(1:!)),*)'' 37 16
          = Some (Inr (subnodes node ! 0, 17))
      \<and> readTldString fuel ''root(3:com,uk(2:*,parliament(1:!)),*)'' 37 18
          = Some (Inr (subnodes node ! 1, 33))"
proof -
  let ?cs = "[Enc ''*'' [], Enc ''parliament'' [Enc ''!'' []]]"
  let ?e = "Enc ''uk'' ?cs"
  let ?pre = "''root(3:com,''"
  let ?s = "?pre @ render ?e @ '',*)''"
  define s where "s = ''root(3:com,uk(2:*,parliament(1:!)),*)''"
  have wf: "wf_enc ?e"
    by (simp add: is_delim_def)
  have ne: "?cs \<noteq> []"
    by simp
  have s_eq: "?s = s"
    unfolding s_def by code_simp
  have len: "length s = 37" "length ?pre + length (render ?e) = 34"
    unfolding s_def by code_simp+
  have lp: "length ?pre = 11"
    by code_simp
  have cp: "child_positions (length ?pre) ?e ! 0 = 16" "child_positions (length ?pre) ?e ! 1 = 18"
    by code_simp+
  have r: "length (render (?cs ! 0)) = 1" "length (render (?cs ! 1)) = 15"
    by code_simp+
  from child_block_decoded [OF wf ne, of ?pre "'',*)''"]
  obtain n where n: "\<forall>fuel\<ge>n. \<exists>node.
      readTldString fuel ?s (length ?s) (length ?pre)
        = Some (Inr (node, length ?pre + length (render ?e)))
      \<and> ?s ! (length ?pre + length (render ?e) - 1) = CHR '')''
      \<and> num_children node = length ?cs
      \<and> (\<forall>i<length ?cs.
           readTldString fuel ?s (length ?s) (child_positions (length ?pre) ?e ! i)
             = Some (Inr (subnodes node ! i,
                 child_positions (length ?pre) ?e ! i + length (render (?cs ! i))))
           \<and> ?s ! (child_positions (length ?pre) ?e ! i - 1)
             = (if i = 0 then CHR '':'' else CHR '',''))"
    by (elim exE)
  have "\<forall>fuel\<ge>n. \<exists>node.
      readTldString fuel s 37 11 = Some (Inr (node, 34))
      \<and> num_children node = 2
      \<and> readTldString fuel s 37 16 = Some (Inr (subnodes node ! 0, 17))
      \<and> readTldString fuel s 37 18 = Some (Inr (subnodes node ! 1, 33))"
  proof (intro allI impI)
    fix fuel
    assume "n \<le> fuel"
    then have "\<exists>node.
      readTldString fuel ?s (length ?s) (length ?pre)
        = Some (Inr (node, length ?pre + length (render ?e)))
      \<and> ?s ! (length ?pre + length (render ?e) - 1) = CHR '')''
      \<and> num_children node = length ?cs
      \<and> (\<forall>i<length ?cs.
           readTldString fuel ?s (length ?s) (child_positions (length ?pre) ?e ! i)
             = Some (Inr (subnodes node ! i,
                 child_positions (length ?pre) ?e ! i + length (render (?cs ! i))))
           \<and> ?s ! (child_positions (length ?pre) ?e ! i - 1)
             = (if i = 0 then CHR '':'' else CHR '',''))"
      by (rule n [rule_format])
    then obtain node where
      top: "readTldString fuel ?s (length ?s) (length ?pre)
        = Some (Inr (node, length ?pre + length (render ?e)))"
      and k: "num_children node = length ?cs"
      and c: "\<forall>i<length ?cs.
           readTldString fuel ?s (length ?s) (child_positions (length ?pre) ?e ! i)
             = Some (Inr (subnodes node ! i,
                 child_positions (length ?pre) ?e ! i + length (render (?cs ! i))))
           \<and> ?s ! (child_positions (length ?pre) ?e ! i - 1)
             = (if i = 0 then CHR '':'' else CHR '','')"
      by (elim exE conjE)
    have t: "readTldString fuel s 37 11 = Some (Inr (node, 34))"
      using top unfolding s_eq len unfolding lp .
    have k2: "num_children node = 2"
      using k by simp
    have "(0::nat) < length ?cs" and "(1::nat) < length ?cs"
      by simp_all
    then have "readTldString fuel ?s (length ?s) (child_positions (length ?pre) ?e ! 0)
             = Some (Inr (subnodes node ! 0,
                 child_positions (length ?pre) ?e ! 0 + length (render (?cs ! 0))))"
      and "readTldString fuel ?s (length ?s) (child_positions (length ?pre) ?e ! 1)
             = Some (Inr (subnodes node ! 1,
                 child_positions (length ?pre) ?e ! 1 + length (render (?cs ! 1))))"
      using c by blast+
    then have c0: "readTldString fuel s 37 16 = Some (Inr (subnodes node ! 0, 17))"
      and c1: "readTldString fuel s 37 18 = Some (Inr (subnodes node ! 1, 33))"
      unfolding s_eq len cp r by simp_all
    from t k2 c0 c1 show "\<exists>node.
      readTldString fuel s 37 11 = Some (Inr (node, 34))
      \<and> num_children node = 2
      \<and> readTldString fuel s 37 16 = Some (Inr (subnodes node ! 0, 17))
      \<and> readTldString fuel s 37 18 = Some (Inr (subnodes node ! 1, 33))"
      by (intro exI [of _ node] conjI)
  qed
  then have "\<exists>n. \<forall>fuel\<ge>n. \<exists>node.
      readTldString fuel s 37 11 = Some (Inr (node, 34))
      \<and> num_children node = 2
      \<and> readTldString fuel s 37 16 = Some (Inr (subnodes node ! 0, 17))
      \<and> readTldString fuel s 37 18 = Some (Inr (subnodes node ! 1, 33))"
    by (rule exI [of _ n])
  then show ?thesis
    unfolding s_def .
qed

subsection \<open>Exception marks\<close>

text \<open>
  Claim C6 says that for a run that starts with \<open>!\<close> and goes on with label characters
  the stored label is the run without the mark. The decoder sets the flag and takes one
  off the length (\<open>pos - start - 1\<close>) but still copies from \<open>s + start\<close>: the stored
  label keeps the mark and loses its last character. For \<open>!ab\<close> it is \<open>!a\<close>, whatever
  delimiter ends the run. Only the bare mark \<open>!\<close>, the one form the resolver relies on,
  gives the empty label the computation is meant for.
\<close>

theorem exception_label_corrupted:
  "readTldString 20 ''!ab,'' 4 0 = Some (Inr (Node (Some ''!a'') True [], 3))
   \<and> readTldString 20 ''root(1:!ab)'' 11 0
       = Some (Inr (Node (Some ''root'') False [Node (Some ''!a'') True []], 11))
   \<and> readTldString 20 ''!ab(1:x)'' 8 0
       = Some (Inr (Node (Some ''!a'') True [Node (Some ''x'') False []], 8))
   \<and> readTldString 20 ''parliament(1:!)'' 15 0
       = Some (Inr (Node (Some ''parliament'') False [Node (Some '''') True []], 15))"
  by code_simp

subsection \<open>The scenario rule set\<close>

text \<open>The two trees of the scenarios are what \<open>loadTldTree\<close> builds from their encoded texts.\<close>

lemma scenario_tree_loaded:
  "loadTldTree 50 ''root(3:com,uk(2:*,parliament(1:!)),*)'' = Some (Inr scenario_tree)"
  "loadTldTree 50 ''root(2:com,uk(2:*,parliament(1:!)))'' = Some (Inr scenario_tree_no_star)"
  by code_simp+

end
